theory Spec2Isabelle
  imports Complex_Main "HOL-Library.AList" "HOL-Library.Sublist"
begin

section \<open>The drone edge aggregator (drone\_edge/drone.py)\<close>

text \<open>
  The model follows \<^verbatim>\<open>class DroneEdge\<close>. Every block the source runs under
  \<^verbatim>\<open>with self.lock\<close> is one function on the shared state; an iteration of a thread's
  loop returns the events it performs (lock operations, sleeps, the transmission to the
  central server, log lines) together with the new state, and says whether the thread
  goes on or dies from an exception nobody catches.

  Numbers: a JSON number is represented by the real number it denotes. The comparisons
  with the integer bounds of the source and the battery arithmetic in steps of 0.5 are
  exact on Python's numbers. The averages are another matter: \<^verbatim>\<open>sum\<close>, \<^verbatim>\<open>/\<close> and
  \<^verbatim>\<open>round\<close> work on binary floating-point numbers, they round, the result of
  \<^verbatim>\<open>sum\<close> on floats depends on the version of the interpreter, and an integer too
  large for a float makes them raise \<^verbatim>\<open>OverflowError\<close>. The model computes the
  averages in the reals, which says which values are averaged and through which calls,
  not which floating-point number comes out. No property below rests on the numeric
  value of an average, and the property in which the averaging has to succeed is
  restricted to values within the range of a float (\<open>float_max\<close>). \<^verbatim>\<open>NaN\<close> and
  infinities are not represented.
\<close>

subsection \<open>Python values and exceptions\<close>

datatype json =
    JNull
  | JBool bool
  | JNum real
  | JStr string
  | JArr "json list"
  | JObj "(string \<times> json) list"

datatype error = JSONDecodeError | UnicodeDecodeError | KeyError | TypeError | ValueError

text \<open>\<^verbatim>\<open>r[k]\<close> for a string key: only a dict can be subscripted by it.\<close>

fun getitem :: "json \<Rightarrow> string \<Rightarrow> error + json" where
  "getitem (JObj kvs) k = (case map_of kvs k of None \<Rightarrow> Inl KeyError | Some v \<Rightarrow> Inr v)"
| "getitem _ k = Inl TypeError"

text \<open>
  The operand of \<^verbatim>\<open>+\<close> with a number and of \<^verbatim>\<open><\<close>, \<^verbatim>\<open>>\<close> against a number:
  numbers and booleans (\<^verbatim>\<open>True\<close> is 1) are accepted, everything else raises
  \<^verbatim>\<open>TypeError\<close>.
\<close>

fun number :: "json \<Rightarrow> error + real" where
  "number (JNum x) = Inr x"
| "number (JBool b) = Inr (if b then 1 else 0)"
| "number _ = Inl TypeError"

text \<open>The list comprehension \<^verbatim>\<open>[r[k] for r in self.readings]\<close>.\<close>

fun field_values :: "string \<Rightarrow> json list \<Rightarrow> error + json list" where
  "field_values k [] = Inr []"
| "field_values k (r # rs) =
     (case getitem r k of
        Inl e \<Rightarrow> Inl e
      | Inr v \<Rightarrow> (case field_values k rs of Inl e \<Rightarrow> Inl e | Inr vs \<Rightarrow> Inr (v # vs)))"

text \<open>
  \<^verbatim>\<open>sum(xs)\<close>: a left fold that starts at 0 and raises \<^verbatim>\<open>TypeError\<close> at the first
  element that is no number. The additions are those of the reals (see above).
\<close>

fun py_sum :: "real \<Rightarrow> json list \<Rightarrow> error + real" where
  "py_sum acc [] = Inr acc"
| "py_sum acc (v # vs) =
     (case number v of Inl e \<Rightarrow> Inl e | Inr x \<Rightarrow> py_sum (acc + x) vs)"

text \<open>
  \<^verbatim>\<open>round(x, ndigits)\<close> on a float rounds the exact value to the nearest multiple of
  \<open>10 ^ -ndigits\<close>, a tie going to the even neighbour; the conversion of the result
  back to a float is left out (see above).
\<close>

definition round_half_even :: "real \<Rightarrow> int" where
  "round_half_even x =
     (let f = \<lfloor>x\<rfloor>; d = x - of_int f
      in if d < 1 / 2 then f
         else if 1 / 2 < d then f + 1
         else if even f then f else f + 1)"

definition py_round :: "real \<Rightarrow> nat \<Rightarrow> real" where
  "py_round x ndigits = of_int (round_half_even (x * 10 ^ ndigits)) / 10 ^ ndigits"

text \<open>\<^verbatim>\<open>{**reading, "type": "anomaly"}\<close>: a key already present keeps its place.\<close>

fun with_type_anomaly :: "json \<Rightarrow> error + json" where
  "with_type_anomaly (JObj kvs) = Inr (JObj (AList.update ''type'' (JStr ''anomaly'') kvs))"
| "with_type_anomaly _ = Inl TypeError"

subsection \<open>The shared state\<close>

record summary =
  avg_temp :: real
  avg_humid :: real
  last_update :: string

text \<open>
  The fields of \<^verbatim>\<open>DroneEdge\<close> that the loops share. \<open>maxlen\<close> is the
  \<^verbatim>\<open>maxlen\<close> of the deque \<^verbatim>\<open>self.readings\<close>.
\<close>

record drone =
  battery_threshold :: real
  maxlen :: nat
  sensor_data :: "json list"
  readings :: "json list"
  anomalies :: "json list"
  battery :: real
  returning :: bool
  forward_queue :: "summary list"

datatype event =
    Acquire
  | Release
  | Sleep
  | Transmit "summary list" bool
  | LogInfo string
  | LogWarning string
  | LogError string

datatype outcome = Continues | Dies error

text \<open>\<^verbatim>\<open>DroneEdge.__init__\<close>; \<^verbatim>\<open>deque(maxlen=n)\<close> raises for a negative \<open>n\<close>.\<close>

definition DroneEdge_init :: "real \<Rightarrow> int \<Rightarrow> error + drone" where
  "DroneEdge_init threshold rolling_window =
     (if rolling_window < 0 then Inl ValueError
      else Inr \<lparr>battery_threshold = threshold, maxlen = nat rolling_window,
                sensor_data = [], readings = [], anomalies = [],
                battery = 100, returning = False, forward_queue = []\<rparr>)"

text \<open>
  \<^verbatim>\<open>deque.append\<close> on a bounded deque: the item is added on the right, and when the
  deque is then longer than \<open>maxlen\<close> the leftmost item is removed.
\<close>

definition deque_append :: "nat \<Rightarrow> 'a list \<Rightarrow> 'a \<Rightarrow> 'a list" where
  "deque_append n xs x = (let ys = xs @ [x] in if n < length ys then tl ys else ys)"

subsection \<open>The sensor handler\<close>

text \<open>The block under the lock in \<^verbatim>\<open>_handle_sensor\<close>.\<close>

definition ingest :: "json \<Rightarrow> drone \<Rightarrow> drone" where
  "ingest reading s =
     s\<lparr>sensor_data := sensor_data s @ [reading],
       readings := deque_append (maxlen s) (readings s) reading\<rparr>"

text \<open>
  The body of the inner loop for one line. \<open>loads\<close> stands for
  \<^verbatim>\<open>json.loads(line.decode("utf-8"))\<close> of the standard library; of the exceptions it
  raises only \<^verbatim>\<open>json.JSONDecodeError\<close> is caught.
\<close>

definition handle_line ::
  "(string \<Rightarrow> error + json) \<Rightarrow> string \<Rightarrow> drone \<Rightarrow> outcome \<times> event list \<times> drone" where
  "handle_line loads line s =
     (case loads line of
        Inr reading \<Rightarrow> (Continues, [Acquire, Release, LogInfo ''Received''], ingest reading s)
      | Inl e \<Rightarrow>
          if e = JSONDecodeError then (Continues, [LogWarning ''Invalid JSON from sensor''], s)
          else (Dies e, [], s))"

definition newline :: char where
  "newline = CHR 0x0A"

text \<open>\<^verbatim>\<open>line, buf = buf.split(b"\n", 1)\<close>, for a buffer that holds a newline.\<close>

definition split_first :: "string \<Rightarrow> string \<times> string" where
  "split_first buf =
     (takeWhile (\<lambda>c. c \<noteq> newline) buf, tl (dropWhile (\<lambda>c. c \<noteq> newline) buf))"

text \<open>
  The inner loop \<^verbatim>\<open>while b"\n" in buf\<close>. It returns the buffer that is left, or the
  exception that ended the thread.
\<close>

function drain ::
  "(string \<Rightarrow> error + json) \<Rightarrow> string \<Rightarrow> event list \<Rightarrow> drone
     \<Rightarrow> (error + string) \<times> event list \<times> drone" where
  "drain loads buf evs s =
     (if newline \<in> set buf then
        (case handle_line loads (fst (split_first buf)) s of
           (Continues, evs', s') \<Rightarrow> drain loads (snd (split_first buf)) (evs @ evs') s'
         | (Dies e, evs', s') \<Rightarrow> (Inl e, evs @ evs', s'))
      else (Inr buf, evs, s))"
  by pat_completeness auto
termination
proof (relation "measure (\<lambda>(loads, buf, evs, s). length buf)")
  show "wf (measure (\<lambda>(loads, buf, evs, s). length buf))" by simp
next
  fix loads :: "string \<Rightarrow> error + json" and buf :: string and evs :: "event list"
    and s :: drone and x y xa ya
  assume "newline \<in> set buf"
  then have "buf \<noteq> []" by auto
  then have "length (tl (dropWhile (\<lambda>c. c \<noteq> newline) buf)) < length buf"
    using length_dropWhile_le [of "\<lambda>c. c \<noteq> newline" buf] by (cases buf) auto
  then show "((loads, snd (split_first buf), evs @ xa, ya), loads, buf, evs, s)
               \<in> measure (\<lambda>(loads, buf, evs, s). length buf)"
    by (simp add: split_first_def)
qed

declare drain.simps [simp del]

text \<open>
  The outer loop of \<^verbatim>\<open>_handle_sensor\<close> over what \<^verbatim>\<open>conn.recv\<close> returns, one list
  element per call. An empty result means the peer has closed (\<^verbatim>\<open>if not data: break\<close>);
  the end of the list is read the same way.
\<close>

datatype conn_status = Disconnected | Crashed error

fun recv_loop ::
  "(string \<Rightarrow> error + json) \<Rightarrow> string list \<Rightarrow> string \<Rightarrow> event list \<Rightarrow> drone
     \<Rightarrow> conn_status \<times> event list \<times> drone" where
  "recv_loop loads [] buf evs s = (Disconnected, evs @ [LogInfo ''Sensor disconnected''], s)"
| "recv_loop loads (data # rest) buf evs s =
     (if data = [] then (Disconnected, evs @ [LogInfo ''Sensor disconnected''], s)
      else (case drain loads (buf @ data) evs s of
              (Inr buf', evs', s') \<Rightarrow> recv_loop loads rest buf' evs' s'
            | (Inl e, evs', s') \<Rightarrow> (Crashed e, evs', s')))"

definition handle_sensor ::
  "(string \<Rightarrow> error + json) \<Rightarrow> string list \<Rightarrow> drone \<Rightarrow> conn_status \<times> event list \<times> drone" where
  "handle_sensor loads chunks s = recv_loop loads chunks [] [] s"

subsection \<open>The processing loop\<close>

text \<open>
  The averages over the window, in the order in which \<^verbatim>\<open>_process_loop\<close> evaluates
  them; the sums and quotients are those of the reals (see above).
\<close>

definition current_average :: "json list \<Rightarrow> error + real \<times> real" where
  "current_average window =
     (if window \<noteq> [] then
        (case field_values ''temperature'' window of
           Inl e \<Rightarrow> Inl e
         | Inr temps \<Rightarrow>
        (case field_values ''humidity'' window of
           Inl e \<Rightarrow> Inl e
         | Inr hums \<Rightarrow>
        (case py_sum 0 temps of
           Inl e \<Rightarrow> Inl e
         | Inr total_temp \<Rightarrow>
        (case py_sum 0 hums of
           Inl e \<Rightarrow> Inl e
         | Inr total_hum \<Rightarrow>
             Inr (total_temp / real (length temps), total_hum / real (length hums))))))
      else Inr (0, 0))"

text \<open>
  The condition of the anomaly test. \<^verbatim>\<open>or\<close> evaluates its operands from the left and
  stops at the first true one, so the humidity is read only when the temperature is in
  range.
\<close>

definition is_anomaly :: "json \<Rightarrow> error + bool" where
  "is_anomaly reading =
     (case getitem reading ''temperature'' of
        Inl e \<Rightarrow> Inl e
      | Inr tv \<Rightarrow>
     (case number tv of
        Inl e \<Rightarrow> Inl e
      | Inr t \<Rightarrow>
          if t < - 10 then Inr True
          else if 60 < t then Inr True
          else
     (case getitem reading ''humidity'' of
        Inl e \<Rightarrow> Inl e
      | Inr hv \<Rightarrow>
     (case number hv of
        Inl e \<Rightarrow> Inl e
      | Inr h \<Rightarrow> if h < 0 then Inr True else Inr (100 < h)))))"

text \<open>
  The block under the lock in \<^verbatim>\<open>_process_loop\<close>, for the reading taken from
  \<^verbatim>\<open>sensor_data\<close>; \<open>now\<close> is \<^verbatim>\<open>datetime.now(timezone.utc).isoformat()\<close>. An
  exception leaves the block (the lock is released) and ends the thread.
\<close>

definition process_reading :: "string \<Rightarrow> json \<Rightarrow> drone \<Rightarrow> outcome \<times> event list \<times> drone" where
  "process_reading now reading s =
     (case current_average (readings s) of
        Inl e \<Rightarrow> (Dies e, [Acquire, Release], s)
      | Inr (avg_t, avg_h) \<Rightarrow>
     (case is_anomaly reading of
        Inl e \<Rightarrow> (Dies e, [Acquire, Release], s)
      | Inr anomalous \<Rightarrow>
     (case (if anomalous then with_type_anomaly reading else Inr reading) of
        Inl e \<Rightarrow> (Dies e, [Acquire, Release], s)
      | Inr anomaly \<Rightarrow>
          let s1 = (if anomalous then s\<lparr>anomalies := anomalies s @ [anomaly]\<rparr> else s);
              logged = (if anomalous then [LogWarning ''Anomaly detected''] else []);
              summary = \<lparr>avg_temp = py_round avg_t 2, avg_humid = py_round avg_h 2,
                         last_update = now\<rparr>;
              s2 = (if \<not> returning s1
                    then s1\<lparr>forward_queue := forward_queue s1 @ [summary]\<rparr> else s1)
          in (Continues, [Acquire] @ logged @ [Release, Sleep], s2))))"

text \<open>
  One iteration of \<^verbatim>\<open>_process_loop\<close>: \<^verbatim>\<open>sensor_data.get\<close> takes the oldest queued
  reading; on an empty queue it times out and the loop goes round again.
\<close>

definition process_iteration :: "string \<Rightarrow> drone \<Rightarrow> outcome \<times> event list \<times> drone" where
  "process_iteration now s =
     (case sensor_data s of
        [] \<Rightarrow> (Continues, [], s)
      | reading # queued \<Rightarrow> process_reading now reading (s\<lparr>sensor_data := queued\<rparr>))"

subsection \<open>The battery, the forwarder and the controls\<close>

text \<open>One iteration of \<^verbatim>\<open>_battery_simulation\<close>.\<close>

definition battery_tick :: "drone \<Rightarrow> event list \<times> drone" where
  "battery_tick s =
     (let s1 = s\<lparr>battery := max 0 (battery s - 0.5)\<rparr>
      in if battery s1 \<le> battery_threshold s1 \<and> \<not> returning s1
         then ([Sleep, Acquire, LogWarning ''Battery low: returning to base'', Release],
               s1\<lparr>returning := True\<rparr>)
         else ([Sleep, Acquire, Release], s1))"

text \<open>
  One iteration of \<^verbatim>\<open>_forward_loop\<close>. \<open>ok\<close> tells whether \<^verbatim>\<open>_send_to_central\<close>
  returns (\<open>True\<close>) or raises; the call is made inside \<^verbatim>\<open>with self.lock\<close>.
\<close>

definition forward_tick :: "bool \<Rightarrow> drone \<Rightarrow> event list \<times> drone" where
  "forward_tick ok s =
     (if \<not> returning s \<and> forward_queue s \<noteq> [] then
        (let batch = forward_queue s
         in if ok
            then ([Sleep, Acquire, Transmit batch True, LogInfo ''Forwarded'', Release],
                  s\<lparr>forward_queue := []\<rparr>)
            else ([Sleep, Acquire, Transmit batch False, LogError ''Forward failed'', Release],
                  s))
      else ([Sleep, Acquire, Release], s))"

text \<open>\<^verbatim>\<open>DroneGUI._on_threshold_change\<close> and \<^verbatim>\<open>DroneGUI._reset_battery\<close>.\<close>

definition on_threshold_change :: "real \<Rightarrow> drone \<Rightarrow> drone" where
  "on_threshold_change val s = s\<lparr>battery_threshold := val\<rparr>"

definition reset_battery :: "drone \<Rightarrow> drone" where
  "reset_battery s = s\<lparr>battery := 100, returning := False\<rparr>"

subsection \<open>Interleavings\<close>

text \<open>
  The threads interleave at the granularity of the lock. An action is one such step:
  a handler storing a decoded reading, the processing loop taking a reading off
  \<^verbatim>\<open>sensor_data\<close>, the processing loop running its locked block on a reading it holds,
  a battery tick, a forwarding tick with the fate of its transmission, and the two
  controls of the GUI. \<^verbatim>\<open>sensor_data.get\<close> on an empty queue times out and takes
  nothing. A run lists the steps of the threads that are alive, so the outcome of a
  processing step is not recorded in it.
\<close>

datatype action =
    Ingest json
  | Get
  | Process string json
  | BatteryTick
  | ForwardTick bool
  | SetThreshold real
  | ResetBattery

fun step :: "action \<Rightarrow> drone \<Rightarrow> event list \<times> drone" where
  "step (Ingest reading) s = ([Acquire, Release, LogInfo ''Received''], ingest reading s)"
| "step Get s = ([], s\<lparr>sensor_data := tl (sensor_data s)\<rparr>)"
| "step (Process now reading) s = snd (process_reading now reading s)"
| "step BatteryTick s = battery_tick s"
| "step (ForwardTick ok) s = forward_tick ok s"
| "step (SetThreshold val) s = ([LogInfo ''Battery threshold set''], on_threshold_change val s)"
| "step ResetBattery s = ([LogInfo ''Battery reset''], reset_battery s)"

fun run :: "action list \<Rightarrow> drone \<Rightarrow> event list \<times> drone" where
  "run [] s = ([], s)"
| "run (a # as) s =
     (let (evs, s') = step a s; (evs', s'') = run as s' in (evs @ evs', s''))"

subsection \<open>Notions of the specification\<close>




text \<open>
  The complete lines of a byte stream, found in one pass over the whole stream: a line
  ends at each newline, and bytes after the last newline belong to no line. \<open>cur\<close>
  holds the bytes of the line under way, newest first; \<open>pending\<close> is what is under way
  at the end of the stream.
\<close>

fun complete_lines :: "string \<Rightarrow> string \<Rightarrow> string list" where
  "complete_lines cur [] = []"
| "complete_lines cur (c # cs) =
     (if c = newline then rev cur # complete_lines [] cs else complete_lines (c # cur) cs)"

fun pending :: "string \<Rightarrow> string \<Rightarrow> string" where
  "pending cur [] = cur"
| "pending cur (c # cs) = (if c = newline then pending [] cs else pending (c # cur) cs)"

text \<open>Decoding and storing the lines of a list, one after the other.\<close>

fun each_line ::
  "(string \<Rightarrow> error + json) \<Rightarrow> string list \<Rightarrow> event list \<Rightarrow> drone
     \<Rightarrow> error option \<times> event list \<times> drone" where
  "each_line loads [] evs s = (None, evs, s)"
| "each_line loads (l # ls) evs s =
     (case handle_line loads l s of
        (Continues, evs', s') \<Rightarrow> each_line loads ls (evs @ evs') s'
      | (Dies e, evs', s') \<Rightarrow> (Some e, evs @ evs', s'))"

text \<open>
  The reader as the specification describes it: the stream as a whole is split at its
  newlines and every complete line is decoded.
\<close>

definition framed_line_reader ::
  "(string \<Rightarrow> error + json) \<Rightarrow> string \<Rightarrow> drone \<Rightarrow> conn_status \<times> event list \<times> drone" where
  "framed_line_reader loads stream s =
     (case each_line loads (complete_lines [] stream) [] s of
        (None, evs, s') \<Rightarrow> (Disconnected, evs @ [LogInfo ''Sensor disconnected''], s')
      | (Some e, evs, s') \<Rightarrow> (Crashed e, evs, s'))"

text \<open>The JSON objects of the lines that decode.\<close>

fun decoded_records :: "(string \<Rightarrow> error + json) \<Rightarrow> string list \<Rightarrow> json list" where
  "decoded_records loads [] = []"
| "decoded_records loads (l # ls) =
     (case loads l of Inr v \<Rightarrow> v # decoded_records loads ls | Inl e \<Rightarrow> decoded_records loads ls)"

text \<open>The readings stored by the handlers in a sequence of actions, in order.\<close>

fun ingested :: "action list \<Rightarrow> json list" where
  "ingested [] = []"
| "ingested (Ingest reading # as) = reading # ingested as"
| "ingested (a # as) = ingested as"

text \<open>The summaries of the batches whose transmission succeeded, in order.\<close>

fun delivered :: "event list \<Rightarrow> summary list" where
  "delivered [] = []"
| "delivered (Transmit batch ok # es) = (if ok then batch @ delivered es else delivered es)"
| "delivered (e # es) = delivered es"

text \<open>
  The lock discipline: a blocking call (a sleep, the connection and send to the central
  server) made between an \<open>Acquire\<close> and the next \<open>Release\<close>.
\<close>

fun blocking :: "event \<Rightarrow> bool" where
  "blocking Sleep = True"
| "blocking (Transmit batch ok) = True"
| "blocking e = False"

fun blocks_under_lock :: "bool \<Rightarrow> event list \<Rightarrow> bool" where
  "blocks_under_lock held [] = False"
| "blocks_under_lock held (Acquire # es) = blocks_under_lock True es"
| "blocks_under_lock held (Release # es) = blocks_under_lock False es"
| "blocks_under_lock held (e # es) = ((held \<and> blocking e) \<or> blocks_under_lock held es)"

subsection \<open>Concrete data\<close>

text \<open>The dict that \<^verbatim>\<open>SensorNode.send_reading\<close> sends (sensor\_node/sensor.py).\<close>

definition send_reading_data :: "string \<Rightarrow> real \<Rightarrow> real \<Rightarrow> string \<Rightarrow> json" where
  "send_reading_data sensor_id t h stamp =
     JObj [(''sensor_id'', JStr sensor_id), (''temperature'', JNum t),
           (''humidity'', JNum h), (''timestamp'', JStr stamp)]"

text \<open>The drone as \<^verbatim>\<open>parse_args\<close> configures it by default: threshold 20, window 10.\<close>

definition default_drone :: drone where
  "default_drone =
     \<lparr>battery_threshold = 20, maxlen = 10, sensor_data = [], readings = [], anomalies = [],
      battery = 100, returning = False, forward_queue = []\<rparr>"

text \<open>
  What \<^verbatim>\<open>json.loads\<close> returns on three lines that are valid JSON, and its
  \<^verbatim>\<open>JSONDecodeError\<close> on the other lines used below.
\<close>

definition sample_loads :: "string \<Rightarrow> error + json" where
  "sample_loads line =
     (if line = ''{}'' then Inr (JObj [])
      else if line = ''7'' then Inr (JNum 7)
      else if line = ''null'' then Inr JNull
      else Inl JSONDecodeError)"

text \<open>A drone with a window of two readings.\<close>

definition small_drone :: drone where
  "small_drone =
     \<lparr>battery_threshold = 20, maxlen = 2, sensor_data = [], readings = [], anomalies = [],
      battery = 100, returning = False, forward_queue = []\<rparr>"

text \<open>The warning that \<^verbatim>\<open>_battery_simulation\<close> logs when it switches the mode.\<close>

definition low_warning :: event where
  "low_warning = LogWarning ''Battery low: returning to base''"

text \<open>A drone one tick above its threshold.\<close>

definition low_drone :: drone where
  "low_drone = default_drone\<lparr>battery := 20.5\<rparr>"

text \<open>A drone that is returning to base, with one reading in its window.\<close>

definition returning_drone :: drone where
  "returning_drone =
     default_drone\<lparr>readings := [send_reading_data ''s1'' 21 40 ''t''], battery := 20,
                    returning := True\<rparr>"

text \<open>An active drone with a summary queued and a reading waiting to be processed.\<close>

definition queued_summary :: summary where
  "queued_summary = \<lparr>avg_temp = 21, avg_humid = 40, last_update = ''t''\<rparr>"

definition busy_drone :: drone where
  "busy_drone =
     default_drone\<lparr>sensor_data := [send_reading_data ''s3'' 2 50 ''v''],
                    readings := [send_reading_data ''s1'' 1 40 ''t'',
                                 send_reading_data ''s2'' 1 45 ''u'',
                                 send_reading_data ''s3'' 2 50 ''v''],
                    forward_queue := [queued_summary]\<rparr>"


section \<open>Properties\<close>

subsection \<open>Averages, classification and the window\<close>





lemma is_anomaly_dict: "is_anomaly reading = Inr a \<Longrightarrow> \<exists>kvs. reading = JObj kvs"
  by (cases reading) (simp_all add: is_anomaly_def)

lemma deque_append_drop:
  "length xs \<le> n \<Longrightarrow> deque_append n xs x = drop (Suc (length xs) - n) (xs @ [x])"
  by (cases xs) (auto simp: deque_append_def Let_def Suc_diff_le)

lemma step_maxlen: "maxlen (snd (step a s)) = maxlen s"
  by (cases a)
    (auto simp: ingest_def process_reading_def battery_tick_def forward_tick_def
      on_threshold_change_def reset_battery_def Let_def split: sum.splits prod.splits)

lemma step_readings:
  "readings (snd (step a s)) =
     (case a of Ingest r \<Rightarrow> deque_append (maxlen s) (readings s) r | _ \<Rightarrow> readings s)"
  by (cases a)
    (auto simp: ingest_def process_reading_def battery_tick_def forward_tick_def
      on_threshold_change_def reset_battery_def Let_def split: sum.splits prod.splits)

lemma ingested_Cons:
  "ingested (a # as) = (case a of Ingest r \<Rightarrow> r # ingested as | _ \<Rightarrow> ingested as)"
  by (cases a) simp_all

lemma window_slides:
  assumes "length W \<le> n"
  shows "drop (length (drop (Suc (length W) - n) (W @ [r]) @ I) - n)
           (drop (Suc (length W) - n) (W @ [r]) @ I)
         = drop (length (W @ r # I) - n) (W @ r # I)"
proof -
  define k where "k = Suc (length W) - n"
  define X where "X = W @ r # I"
  have k_le: "k \<le> length (W @ [r])" by (simp add: k_def)
  have "drop k ((W @ [r]) @ I) = drop k (W @ [r]) @ I"
    using k_le by (simp only: drop_append) simp
  then have eq: "drop k (W @ [r]) @ I = drop k X"
    by (simp add: X_def)
  have ar: "length (drop k X) - n + k = length X - n"
    using assms by (auto simp: k_def X_def)
  have "drop (length (drop k X) - n) (drop k X) = drop (length X - n) X"
    by (simp only: drop_drop ar)
  then show ?thesis
    unfolding k_def [symmetric] eq X_def [symmetric] .
qed

lemma run_window:
  "length (readings s) \<le> maxlen s \<Longrightarrow>
   readings (snd (run acts s)) =
     drop (length (readings s @ ingested acts) - maxlen s) (readings s @ ingested acts) \<and>
   maxlen (snd (run acts s)) = maxlen s"
proof (induction acts arbitrary: s)
  case Nil
  then show ?case by simp
next
  case (Cons a acts)
  obtain evs s' where st: "step a s = (evs, s')" by (cases "step a s")
  have ml: "maxlen s' = maxlen s" using step_maxlen [of a s] st by simp
  have run_eq: "snd (run (a # acts) s) = snd (run acts s')"
    using st by (simp add: split_beta)
  show ?case
  proof (cases "\<exists>r. a = Ingest r")
    case True
    then obtain r where a: "a = Ingest r" by blast
    have rd: "readings s' = drop (Suc (length (readings s)) - maxlen s) (readings s @ [r])"
      using step_readings [of a s] st a deque_append_drop [OF Cons.prems] by simp
    then have le: "length (readings s') \<le> maxlen s'" using Cons.prems ml by auto
    have "readings (snd (run acts s')) =
        drop (length (readings s @ r # ingested acts) - maxlen s) (readings s @ r # ingested acts)"
      using Cons.IH [OF le] window_slides [OF Cons.prems, of r "ingested acts"]
      unfolding rd ml by simp
    then show ?thesis using Cons.IH [OF le] ml a run_eq by simp
  next
    case False
    then have rd: "readings s' = readings s"
      using step_readings [of a s] st by (cases a) auto
    from False have ing: "ingested (a # acts) = ingested acts"
      by (cases a) simp_all
    have le: "length (readings s') \<le> maxlen s'" using Cons.prems ml rd by simp
    show ?thesis using Cons.IH [OF le] unfolding run_eq ing rd ml by simp
  qed
qed





text \<open>
  C4. Start from a fresh drone of capacity \<open>N\<close> and let the threads take any steps.
  The window then holds the last \<open>N\<close> readings stored so far, in arrival order, so
  its length is the minimum of \<open>N\<close> and the number of readings stored; the next
  reading goes to the end, and once the capacity is reached the oldest reading leaves.
\<close>

theorem rolling_window_fifo:
  assumes "DroneEdge_init threshold capacity = Inr s0"
  shows "readings (snd (run acts s0)) =
           drop (length (ingested acts) - nat capacity) (ingested acts) \<and>
         length (readings (snd (run acts s0))) = min (nat capacity) (length (ingested acts)) \<and>
         readings (ingest r (snd (run acts s0))) =
           (if length (ingested acts) < nat capacity then readings (snd (run acts s0)) @ [r]
            else if capacity = 0 then []
            else tl (readings (snd (run acts s0))) @ [r])"
proof -
  from assms have s0: "readings s0 = []" "maxlen s0 = nat capacity" and cap: "0 \<le> capacity"
    by (auto simp: DroneEdge_init_def split: if_splits)
  have w: "readings (snd (run acts s0)) =
      drop (length (ingested acts) - nat capacity) (ingested acts)"
    and m: "maxlen (snd (run acts s0)) = nat capacity"
    using run_window [of s0 acts] s0 by simp_all
  have len: "length (readings (snd (run acts s0))) = min (nat capacity) (length (ingested acts))"
    unfolding w by auto
  have "readings (ingest r (snd (run acts s0))) =
      deque_append (nat capacity) (readings (snd (run acts s0))) r"
    by (simp add: ingest_def m)
  also have "\<dots> = (if length (ingested acts) < nat capacity then readings (snd (run acts s0)) @ [r]
            else if capacity = 0 then []
            else tl (readings (snd (run acts s0))) @ [r])"
    using len cap by (cases "readings (snd (run acts s0))") (auto simp: deque_append_def Let_def)
  finally show ?thesis using w len by simp
qed

text \<open>Capacity 2 and three readings: the first one has left, a fourth evicts the second.\<close>

theorem rolling_window_fifo_witness:
  "DroneEdge_init 20 2 = Inr small_drone \<and>
   readings (snd (run [Ingest (JNum 1), Ingest (JNum 2), BatteryTick, Ingest (JNum 3)] small_drone))
     = [JNum 2, JNum 3] \<and>
   readings (ingest (JNum 4)
      (snd (run [Ingest (JNum 1), Ingest (JNum 2), BatteryTick, Ingest (JNum 3)] small_drone)))
     = [JNum 3, JNum 4]"
proof -
  have h: "DroneEdge_init 20 2 = Inr small_drone"
    by (simp add: DroneEdge_init_def small_drone_def)
  show ?thesis
    using h rolling_window_fifo [OF h,
        of "[Ingest (JNum 1), Ingest (JNum 2), BatteryTick, Ingest (JNum 3)]" "JNum 4"]
    by simp
qed

subsection \<open>The battery\<close>

lemma step_battery:
  "a \<noteq> ResetBattery \<Longrightarrow>
   battery (snd (step a s)) = (if a = BatteryTick then max 0 (battery s - 0.5) else battery s)"
  by (cases a)
    (auto simp: ingest_def process_reading_def battery_tick_def forward_tick_def
      on_threshold_change_def Let_def split: sum.splits prod.splits)

lemma step_returning:
  "a \<noteq> ResetBattery \<Longrightarrow> returning s \<Longrightarrow> returning (snd (step a s))"
  by (cases a)
    (auto simp: ingest_def process_reading_def battery_tick_def forward_tick_def
      on_threshold_change_def Let_def split: sum.splits prod.splits)

lemma step_warning_returning:
  "returning s \<Longrightarrow> count_list (fst (step a s)) low_warning = 0"
  by (cases a)
    (auto simp: low_warning_def ingest_def process_reading_def battery_tick_def forward_tick_def
      Let_def split: sum.splits prod.splits)

lemma step_warning_active:
  "count_list (fst (step a s)) low_warning =
     (if a = BatteryTick \<and> \<not> returning s \<and> returning (snd (step a s)) then 1 else 0)"
  by (cases a)
    (auto simp: low_warning_def ingest_def process_reading_def battery_tick_def forward_tick_def
      Let_def split: sum.splits prod.splits)

lemma count_list_append: "count_list (xs @ ys) x = count_list xs x + count_list ys x"
  by (induction xs) simp_all

lemma run_Cons:
  "run (a # as) s = (fst (step a s) @ fst (run as (snd (step a s))), snd (run as (snd (step a s))))"
  by (simp add: split_beta)

lemma run_battery:
  "ResetBattery \<notin> set acts \<Longrightarrow> 0 \<le> battery s \<Longrightarrow>
   0 \<le> battery (snd (run acts s)) \<and> battery (snd (run acts s)) \<le> battery s"
proof (induction acts arbitrary: s)
  case Nil
  then show ?case by simp
next
  case (Cons a acts)
  have a: "a \<noteq> ResetBattery" and r: "ResetBattery \<notin> set acts" using Cons.prems by auto
  have b: "0 \<le> battery (snd (step a s)) \<and> battery (snd (step a s)) \<le> battery s"
    using step_battery [OF a, of s] Cons.prems(2) by auto
  from Cons.IH [OF r, of "snd (step a s)"] b show ?case
    unfolding run_Cons by simp
qed

lemma run_returning:
  "ResetBattery \<notin> set acts \<Longrightarrow> returning s \<Longrightarrow>
   returning (snd (run acts s)) \<and> count_list (fst (run acts s)) low_warning = 0"
proof (induction acts arbitrary: s)
  case Nil
  then show ?case by simp
next
  case (Cons a acts)
  have a: "a \<noteq> ResetBattery" and r: "ResetBattery \<notin> set acts" using Cons.prems by auto
  have b: "returning (snd (step a s))" using step_returning [OF a Cons.prems(2)] .
  from Cons.IH [OF r b] step_warning_returning [OF Cons.prems(2), of a] show ?case
    unfolding run_Cons by (simp add: count_list_append)
qed

lemma run_warning_once:
  "ResetBattery \<notin> set acts \<Longrightarrow> count_list (fst (run acts s)) low_warning \<le> 1"
proof (induction acts arbitrary: s)
  case Nil
  then show ?case by simp
next
  case (Cons a acts)
  have a: "a \<noteq> ResetBattery" and r: "ResetBattery \<notin> set acts" using Cons.prems by auto
  show ?case
  proof (cases "returning (snd (step a s))")
    case True
    have "count_list (fst (step a s)) low_warning \<le> 1"
      by (simp add: step_warning_active)
    with run_returning [OF r True] show ?thesis
      unfolding run_Cons by (simp add: count_list_append)
  next
    case False
    then have "count_list (fst (step a s)) low_warning = 0"
      by (simp add: step_warning_active)
    with Cons.IH [OF r, of "snd (step a s)"] show ?thesis
      unfolding run_Cons by (simp add: count_list_append)
  qed
qed

text \<open>The level of a drone that was started stays between 0 and 100.\<close>

lemma step_battery_range:
  "0 \<le> battery s \<and> battery s \<le> 100 \<Longrightarrow>
   0 \<le> battery (snd (step a s)) \<and> battery (snd (step a s)) \<le> 100"
  by (cases a)
    (auto simp: ingest_def process_reading_def battery_tick_def forward_tick_def
      on_threshold_change_def reset_battery_def Let_def split: sum.splits prod.splits)

lemma run_battery_range:
  "0 \<le> battery s \<and> battery s \<le> 100 \<Longrightarrow>
   0 \<le> battery (snd (run acts s)) \<and> battery (snd (run acts s)) \<le> 100"
proof (induction acts arbitrary: s)
  case Nil
  then show ?case by simp
next
  case (Cons a acts)
  from Cons.IH [OF step_battery_range [OF Cons.prems, of a]] show ?case
    unfolding run_Cons by simp
qed

lemma reachable_battery_range:
  "DroneEdge_init threshold capacity = Inr s0 \<Longrightarrow>
   0 \<le> battery (snd (run acts s0)) \<and> battery (snd (run acts s0)) \<le> 100"
  using run_battery_range [of s0 acts]
  by (auto simp: DroneEdge_init_def split: if_splits)

text \<open>
  C6. A tick lowers the level by 0.5, not below 0. After the tick the mode is Returning
  exactly when it was Returning before or the new level is at most the threshold, so the
  switch happens at the first tick that brings the level to the threshold or below; a
  tick in Returning mode logs nothing, the switching tick logs the warning. Along any
  steps of the threads without a reset, from a level that is not negative, the level
  does not rise, Returning is kept, and the warning is logged at most once. A reset sets
  the level to 100 and the mode to Active. (The level of a started drone is never
  negative: \<open>reachable_battery_range\<close>.)
\<close>

theorem battery_decay:
  "battery (snd (battery_tick s)) = max 0 (battery s - 0.5) \<and>
   returning (snd (battery_tick s)) =
     (returning s \<or> battery (snd (battery_tick s)) \<le> battery_threshold s) \<and>
   (returning s \<longrightarrow> fst (battery_tick s) = [Sleep, Acquire, Release]) \<and>
   (\<not> returning s \<and> returning (snd (battery_tick s)) \<longrightarrow>
      fst (battery_tick s) = [Sleep, Acquire, low_warning, Release]) \<and>
   (ResetBattery \<notin> set acts \<and> 0 \<le> battery s \<longrightarrow>
      battery (snd (run acts s)) \<le> battery s \<and>
      (returning s \<longrightarrow> returning (snd (run acts s))) \<and>
      count_list (fst (run acts s)) low_warning \<le> 1) \<and>
   battery (reset_battery s) = 100 \<and> \<not> returning (reset_battery s)"
proof -
  have tick: "battery (snd (battery_tick s)) = max 0 (battery s - 0.5) \<and>
   returning (snd (battery_tick s)) =
     (returning s \<or> battery (snd (battery_tick s)) \<le> battery_threshold s) \<and>
   (returning s \<longrightarrow> fst (battery_tick s) = [Sleep, Acquire, Release]) \<and>
   (\<not> returning s \<and> returning (snd (battery_tick s)) \<longrightarrow>
      fst (battery_tick s) = [Sleep, Acquire, low_warning, Release])"
    by (auto simp: battery_tick_def Let_def low_warning_def)
  have runs: "ResetBattery \<notin> set acts \<and> 0 \<le> battery s \<longrightarrow>
      battery (snd (run acts s)) \<le> battery s \<and>
      (returning s \<longrightarrow> returning (snd (run acts s))) \<and>
      count_list (fst (run acts s)) low_warning \<le> 1"
    using run_battery [of acts s] run_returning [of acts s] run_warning_once [of acts s]
    by blast
  have reset: "battery (reset_battery s) = 100 \<and> \<not> returning (reset_battery s)"
    by (simp add: reset_battery_def)
  from tick runs reset show ?thesis by blast
qed

text \<open>
  From 20.5 with threshold 20: the first tick reaches 20 and switches the mode with the
  warning, the second tick is silent.
\<close>

theorem battery_decay_witness:
  "ResetBattery \<notin> set [BatteryTick, Ingest JNull, BatteryTick] \<and> 0 \<le> battery low_drone \<and>
   \<not> returning low_drone \<and> returning (snd (battery_tick low_drone)) \<and>
   battery (snd (battery_tick low_drone)) = 20 \<and>
   fst (battery_tick low_drone) = [Sleep, Acquire, low_warning, Release] \<and>
   fst (battery_tick (snd (battery_tick low_drone))) = [Sleep, Acquire, Release] \<and>
   battery (snd (run [BatteryTick, Ingest JNull, BatteryTick] low_drone)) \<le> battery low_drone \<and>
   count_list (fst (run [BatteryTick, Ingest JNull, BatteryTick] low_drone)) low_warning \<le> 1"
proof -
  have a: "ResetBattery \<notin> set [BatteryTick, Ingest JNull, BatteryTick]" by simp
  have b: "0 \<le> battery low_drone" "\<not> returning low_drone"
    "battery low_drone = 20.5" "battery_threshold low_drone = 20"
    by (simp_all add: low_drone_def default_drone_def)
  have c: "battery (snd (battery_tick low_drone)) = 20"
    using battery_decay [of low_drone "[]"] b by simp
  have d: "returning (snd (battery_tick low_drone))"
    using battery_decay [of low_drone "[]"] b c by simp
  have e: "fst (battery_tick low_drone) = [Sleep, Acquire, low_warning, Release]"
    using battery_decay [of low_drone "[]"] b d by blast
  have f: "fst (battery_tick (snd (battery_tick low_drone))) = [Sleep, Acquire, Release]"
    using battery_decay [of "snd (battery_tick low_drone)" "[]"] d by blast
  have g: "battery (snd (run [BatteryTick, Ingest JNull, BatteryTick] low_drone)) \<le> battery low_drone \<and>
   count_list (fst (run [BatteryTick, Ingest JNull, BatteryTick] low_drone)) low_warning \<le> 1"
    using battery_decay [of low_drone "[BatteryTick, Ingest JNull, BatteryTick]"] a b(1) by blast
  from a b(1,2) c d e f g show ?thesis by blast
qed

subsection \<open>Forwarding\<close>

lemma delivered_append: "delivered (xs @ ys) = delivered xs @ delivered ys"
  by (induction xs rule: delivered.induct) simp_all

lemma step_delivered:
  "\<exists>new. delivered (fst (step a s)) @ forward_queue (snd (step a s)) = forward_queue s @ new"
  by (cases a)
    (auto simp: ingest_def process_reading_def battery_tick_def forward_tick_def
      on_threshold_change_def reset_battery_def Let_def split: sum.splits prod.splits)

lemma run_delivered:
  "\<exists>new. delivered (fst (run acts s)) @ forward_queue (snd (run acts s)) = forward_queue s @ new"
proof (induction acts arbitrary: s)
  case Nil
  then show ?case by simp
next
  case (Cons a acts)
  obtain n1 where 1: "delivered (fst (step a s)) @ forward_queue (snd (step a s))
      = forward_queue s @ n1"
    using step_delivered [of a s] by blast
  obtain n2 where 2: "delivered (fst (run acts (snd (step a s))))
      @ forward_queue (snd (run acts (snd (step a s)))) = forward_queue (snd (step a s)) @ n2"
    using Cons.IH [of "snd (step a s)"] by blast
  have "delivered (fst (run (a # acts) s)) @ forward_queue (snd (run (a # acts) s))
      = delivered (fst (step a s)) @ (forward_queue (snd (step a s)) @ n2)"
    unfolding run_Cons using 2 by (simp add: delivered_append)
  also have "\<dots> = forward_queue s @ (n1 @ n2)"
    using 1 by (simp only: append_assoc [symmetric])
  finally show ?case by blast
qed

text \<open>
  C2. A forwarding tick whose transmission fails leaves the whole state, and so the
  queue, as it was, and logs the error. A tick whose transmission succeeds sends the
  queue as it stands and empties it; transmission and clearing happen in one locked
  block, so the batch sent and the entries cleared are the same and no summary can be
  appended in between. In both cases the summaries delivered by the tick followed by
  the queue after it are the queue before it. Along any steps of the threads, what was
  queued at the start is a prefix of what has been delivered followed by what is still
  queued: a summary leaves the queue only in a batch that was sent.
\<close>

theorem forward_keeps_unsent:
  "snd (forward_tick False s) = s \<and>
   (\<not> returning s \<and> forward_queue s \<noteq> [] \<longrightarrow>
      fst (forward_tick False s) =
        [Sleep, Acquire, Transmit (forward_queue s) False, LogError ''Forward failed'', Release] \<and>
      forward_tick True s =
        ([Sleep, Acquire, Transmit (forward_queue s) True, LogInfo ''Forwarded'', Release],
         s\<lparr>forward_queue := []\<rparr>)) \<and>
   delivered (fst (forward_tick ok s)) @ forward_queue (snd (forward_tick ok s)) = forward_queue s \<and>
   prefix (forward_queue s) (delivered (fst (run acts s)) @ forward_queue (snd (run acts s)))"
proof -
  have 1: "snd (forward_tick False s) = s"
    by (simp add: forward_tick_def)
  have 2: "\<not> returning s \<and> forward_queue s \<noteq> [] \<longrightarrow>
      fst (forward_tick False s) =
        [Sleep, Acquire, Transmit (forward_queue s) False, LogError ''Forward failed'', Release] \<and>
      forward_tick True s =
        ([Sleep, Acquire, Transmit (forward_queue s) True, LogInfo ''Forwarded'', Release],
         s\<lparr>forward_queue := []\<rparr>)"
    by (simp add: forward_tick_def)
  have 3: "delivered (fst (forward_tick ok s)) @ forward_queue (snd (forward_tick ok s))
      = forward_queue s"
    by (simp add: forward_tick_def Let_def)
  have 4: "prefix (forward_queue s) (delivered (fst (run acts s)) @ forward_queue (snd (run acts s)))"
    using run_delivered [of acts s] by (auto simp: prefix_def)
  from 1 2 3 4 show ?thesis by blast
qed

text \<open>
  One queued summary: a failed tick keeps it, a successful tick sends it and empties the
  queue.
\<close>

theorem forward_keeps_unsent_witness:
  "\<not> returning busy_drone \<and> forward_queue busy_drone \<noteq> [] \<and>
   forward_queue (snd (forward_tick False busy_drone)) = [queued_summary] \<and>
   fst (forward_tick False busy_drone) =
     [Sleep, Acquire, Transmit [queued_summary] False, LogError ''Forward failed'', Release] \<and>
   forward_queue (snd (forward_tick True busy_drone)) = [] \<and>
   fst (forward_tick True busy_drone) =
     [Sleep, Acquire, Transmit [queued_summary] True, LogInfo ''Forwarded'', Release]"
proof -
  have a: "\<not> returning busy_drone" "forward_queue busy_drone = [queued_summary]"
    by (simp_all add: busy_drone_def default_drone_def)
  show ?thesis
    using a forward_keeps_unsent [of busy_drone True "[]"] by simp
qed

lemma process_reading_ok:
  assumes "current_average (readings s) = Inr (avg_t, avg_h)" and "is_anomaly reading = Inr a"
  shows "\<exists>kvs. reading = JObj kvs \<and>
     process_reading now reading s =
       (Continues,
        [Acquire] @ (if a then [LogWarning ''Anomaly detected''] else []) @ [Release, Sleep],
        s\<lparr>anomalies :=
             (if a then anomalies s @ [JObj (AList.update ''type'' (JStr ''anomaly'') kvs)]
              else anomalies s),
           forward_queue :=
             (if returning s then forward_queue s
              else forward_queue s @
                [\<lparr>avg_temp = py_round avg_t 2, avg_humid = py_round avg_h 2,
                  last_update = now\<rparr>])\<rparr>)"
proof -
  obtain kvs where r: "reading = JObj kvs" using is_anomaly_dict [OF assms(2)] by blast
  show ?thesis
    using assms unfolding r by (simp add: process_reading_def Let_def)
qed

lemma process_reading_returning:
  "returning s \<Longrightarrow> forward_queue (snd (snd (process_reading now reading s))) = forward_queue s"
  by (auto simp: process_reading_def Let_def split: sum.splits prod.splits)

text \<open>
  C1, as stated, fails. A reading of the expected shape processed in Returning mode
  leaves the state as it was: the forward queue stays empty, no summary is appended.
\<close>

theorem returning_drops_summaries_counterexample:
  "returning returning_drone \<and>
   process_reading ''now'' (send_reading_data ''s1'' 21 40 ''t'') returning_drone
     = (Continues, [Acquire, Release, Sleep], returning_drone) \<and>
   forward_queue returning_drone = []"
  by (simp add: returning_drone_def default_drone_def send_reading_data_def process_reading_def
      current_average_def is_anomaly_def)

text \<open>
  C1, amended. In Returning mode a forwarding tick attempts no transmission and changes
  nothing, and the handler stores readings in \<^verbatim>\<open>sensor_data\<close> and the window as in
  Active mode. The processing block still computes the averages and records anomalies,
  but it leaves the forward queue as it is: the summary of a reading processed in
  Returning mode is not queued.
\<close>

theorem returning_suppresses_forwarding:
  assumes "returning s"
  shows "forward_tick ok s = ([Sleep, Acquire, Release], s) \<and>
         forward_queue (snd (snd (process_reading now reading s))) = forward_queue s \<and>
         readings (ingest reading s) = deque_append (maxlen s) (readings s) reading \<and>
         sensor_data (ingest reading s) = sensor_data s @ [reading] \<and>
         (current_average (readings s) = Inr avg \<and> is_anomaly reading = Inr a \<longrightarrow>
            (\<exists>kvs. reading = JObj kvs \<and>
               process_reading now reading s =
                 (Continues,
                  [Acquire] @ (if a then [LogWarning ''Anomaly detected''] else [])
                    @ [Release, Sleep],
                  s\<lparr>anomalies :=
                      (if a then anomalies s @ [JObj (AList.update ''type'' (JStr ''anomaly'') kvs)]
                       else anomalies s)\<rparr>)))"
proof -
  have 1: "forward_tick ok s = ([Sleep, Acquire, Release], s)"
    using assms by (simp add: forward_tick_def)
  have 2: "readings (ingest reading s) = deque_append (maxlen s) (readings s) reading \<and>
         sensor_data (ingest reading s) = sensor_data s @ [reading]"
    by (simp add: ingest_def)
  have 3: "current_average (readings s) = Inr avg \<and> is_anomaly reading = Inr a \<longrightarrow>
            (\<exists>kvs. reading = JObj kvs \<and>
               process_reading now reading s =
                 (Continues,
                  [Acquire] @ (if a then [LogWarning ''Anomaly detected''] else [])
                    @ [Release, Sleep],
                  s\<lparr>anomalies :=
                      (if a then anomalies s @ [JObj (AList.update ''type'' (JStr ''anomaly'') kvs)]
                       else anomalies s)\<rparr>))"
  proof
    assume h: "current_average (readings s) = Inr avg \<and> is_anomaly reading = Inr a"
    obtain avg_t avg_h where avg: "avg = (avg_t, avg_h)" by (cases avg)
    from process_reading_ok [of s avg_t avg_h reading a now] h avg assms
    show "\<exists>kvs. reading = JObj kvs \<and>
               process_reading now reading s =
                 (Continues,
                  [Acquire] @ (if a then [LogWarning ''Anomaly detected''] else [])
                    @ [Release, Sleep],
                  s\<lparr>anomalies :=
                      (if a then anomalies s @ [JObj (AList.update ''type'' (JStr ''anomaly'') kvs)]
                       else anomalies s)\<rparr>)"
      by auto
  qed
  from 1 2 3 process_reading_returning [OF assms, of now reading] show ?thesis by blast
qed

text \<open>
  A returning drone with one queued summary: the tick sends nothing and the processed
  reading adds nothing.
\<close>

theorem returning_suppresses_forwarding_witness:
  "returning returning_drone \<and>
   forward_tick True (returning_drone\<lparr>forward_queue := [queued_summary]\<rparr>)
     = ([Sleep, Acquire, Release], returning_drone\<lparr>forward_queue := [queued_summary]\<rparr>) \<and>
   forward_queue (snd (snd (process_reading ''now'' (send_reading_data ''s1'' 21 40 ''t'')
       (returning_drone\<lparr>forward_queue := [queued_summary]\<rparr>)))) = [queued_summary]"
proof -
  have a: "returning returning_drone"
    "returning (returning_drone\<lparr>forward_queue := [queued_summary]\<rparr>)"
    by (simp_all add: returning_drone_def)
  show ?thesis
    using a returning_suppresses_forwarding [OF a(2), of True "''now''"
        "send_reading_data ''s1'' 21 40 ''t''"]
    by simp
qed




subsection \<open>Framing\<close>

lemma complete_lines_append:
  "complete_lines cur (xs @ ys) = complete_lines cur xs @ complete_lines (pending cur xs) ys"
  by (induction xs arbitrary: cur) simp_all

lemma pending_append: "pending cur (xs @ ys) = pending (pending cur xs) ys"
  by (induction xs arbitrary: cur) simp_all

lemma no_newline_lines:
  "newline \<notin> set xs \<Longrightarrow> complete_lines cur xs = [] \<and> pending cur xs = rev xs @ cur"
  by (induction xs arbitrary: cur) auto

lemma pending_no_newline: "newline \<notin> set cur \<Longrightarrow> newline \<notin> set (pending cur xs)"
  by (induction xs arbitrary: cur) simp_all

lemma first_line:
  "newline \<in> set buf \<Longrightarrow>
   complete_lines cur buf =
     (rev cur @ fst (split_first buf)) # complete_lines [] (snd (split_first buf)) \<and>
   pending cur buf = pending [] (snd (split_first buf))"
  by (induction buf arbitrary: cur) (auto simp: split_first_def)

lemma drain_each_line:
  "drain loads buf evs s =
     (case each_line loads (complete_lines [] buf) evs s of
        (None, evs', s') \<Rightarrow> (Inr (rev (pending [] buf)), evs', s')
      | (Some e, evs', s') \<Rightarrow> (Inl e, evs', s'))"
proof (induction loads buf evs s rule: drain.induct)
  case (1 loads buf evs s)
  show ?case
  proof (cases "newline \<in> set buf")
    case False
    then show ?thesis
      using no_newline_lines [of buf "[]"] by (simp add: drain.simps [of loads buf])
  next
    case True
    note fl = first_line [OF True, of "[]"]
    obtain out evs' s' where h: "handle_line loads (fst (split_first buf)) s = (out, evs', s')"
      by (cases "handle_line loads (fst (split_first buf)) s")
    show ?thesis
    proof (cases out)
      case Continues
      have "drain loads buf evs s = drain loads (snd (split_first buf)) (evs @ evs') s'"
        using True h Continues by (simp add: drain.simps [of loads buf])
      also have "\<dots> =
        (case each_line loads (complete_lines [] (snd (split_first buf))) (evs @ evs') s' of
           (None, evs', s') \<Rightarrow> (Inr (rev (pending [] (snd (split_first buf)))), evs', s')
         | (Some e, evs', s') \<Rightarrow> (Inl e, evs', s'))"
        using "1.IH" [OF True h [symmetric] Continues refl] .
      finally have "drain loads buf evs s =
        (case each_line loads (complete_lines [] (snd (split_first buf))) (evs @ evs') s' of
           (None, evs', s') \<Rightarrow> (Inr (rev (pending [] buf)), evs', s')
         | (Some e, evs', s') \<Rightarrow> (Inl e, evs', s'))"
        by (simp only: conjunct2 [OF fl])
      moreover have "each_line loads (complete_lines [] buf) evs s =
          each_line loads (complete_lines [] (snd (split_first buf))) (evs @ evs') s'"
        using h Continues by (simp add: conjunct1 [OF fl])
      ultimately show ?thesis by simp
    next
      case (Dies e)
      then show ?thesis
        using True h fl by (simp add: drain.simps [of loads buf])
    qed
  qed
qed

lemma each_line_append:
  "each_line loads (xs @ ys) evs s =
     (case each_line loads xs evs s of
        (None, evs', s') \<Rightarrow> each_line loads ys evs' s'
      | (Some e, evs', s') \<Rightarrow> (Some e, evs', s'))"
  by (induction xs arbitrary: evs s) (auto split: prod.splits outcome.splits)

lemma recv_loop_each_line:
  "[] \<notin> set chunks \<Longrightarrow> newline \<notin> set buf \<Longrightarrow>
   recv_loop loads chunks buf evs s =
     (case each_line loads (complete_lines (rev buf) (concat chunks)) evs s of
        (None, evs', s') \<Rightarrow> (Disconnected, evs' @ [LogInfo ''Sensor disconnected''], s')
      | (Some e, evs', s') \<Rightarrow> (Crashed e, evs', s'))"
proof (induction chunks arbitrary: buf evs s)
  case Nil
  then show ?case by simp
next
  case (Cons data rest)
  have data: "data \<noteq> []" and rest: "[] \<notin> set rest" using Cons.prems(1) by auto
  have ls: "complete_lines [] (buf @ data) = complete_lines (rev buf) data"
    and pd: "pending [] (buf @ data) = pending (rev buf) data"
    using no_newline_lines [OF Cons.prems(2), of "[]"]
    by (simp_all add: complete_lines_append pending_append)
  have split: "complete_lines (rev buf) (concat (data # rest)) =
      complete_lines (rev buf) data @ complete_lines (pending (rev buf) data) (concat rest)"
    by (simp add: complete_lines_append)
  have nn: "newline \<notin> set (rev (pending (rev buf) data))"
    using pending_no_newline [of "rev buf" data] Cons.prems(2) by simp
  obtain r evs' s' where el: "each_line loads (complete_lines (rev buf) data) evs s = (r, evs', s')"
    by (cases "each_line loads (complete_lines (rev buf) data) evs s")
  show ?case
  proof (cases r)
    case None
    have "recv_loop loads (data # rest) buf evs s =
        recv_loop loads rest (rev (pending (rev buf) data)) evs' s'"
      using data el None by (simp add: drain_each_line ls pd)
    then show ?thesis
      using Cons.IH [OF rest nn, of evs' s'] el None
      unfolding split each_line_append by simp
  next
    case (Some e)
    have "recv_loop loads (data # rest) buf evs s = (Crashed e, evs', s')"
      using data el Some by (simp add: drain_each_line ls pd)
    then show ?thesis
      using el Some unfolding split each_line_append by simp
  qed
qed

lemma each_line_records:
  "\<forall>l\<in>set ls. \<forall>e. loads l = Inl e \<longrightarrow> e = JSONDecodeError \<Longrightarrow>
   fst (each_line loads ls evs s) = None \<and>
   sensor_data (snd (snd (each_line loads ls evs s))) = sensor_data s @ decoded_records loads ls"
proof (induction ls arbitrary: evs s)
  case Nil
  then show ?case by simp
next
  case (Cons l ls)
  then show ?case
    by (cases "loads l") (auto simp: handle_line_def ingest_def)
qed

text \<open>
  C9. For chunks as \<^verbatim>\<open>recv\<close> delivers them before the peer closes (none of them
  empty), the handler does what the reader of the specification does on the concatenated
  stream: the result, the log and the state are the same. So two ways of cutting one
  stream into chunks give the same result. When no complete line raises anything but
  \<^verbatim>\<open>JSONDecodeError\<close>, the handler ends with a disconnection and has put on
  \<^verbatim>\<open>sensor_data\<close> the JSON objects of the complete lines that decode, in order.
\<close>

theorem framing_chunk_independent:
  assumes "[] \<notin> set chunks"
  shows "handle_sensor loads chunks s = framed_line_reader loads (concat chunks) s \<and>
         ([] \<notin> set chunks' \<and> concat chunks' = concat chunks \<longrightarrow>
            handle_sensor loads chunks' s = handle_sensor loads chunks s) \<and>
         ((\<forall>l\<in>set (complete_lines [] (concat chunks)).
              \<forall>e. loads l = Inl e \<longrightarrow> e = JSONDecodeError) \<longrightarrow>
            fst (handle_sensor loads chunks s) = Disconnected \<and>
            sensor_data (snd (snd (handle_sensor loads chunks s))) =
              sensor_data s @ decoded_records loads (complete_lines [] (concat chunks)))"
proof -
  have eq: "handle_sensor loads cs s = framed_line_reader loads (concat cs) s"
    if "[] \<notin> set cs" for cs
    using recv_loop_each_line [OF that, of "[]" loads "[]" s]
    by (simp add: handle_sensor_def framed_line_reader_def)
  have 2: "[] \<notin> set chunks' \<and> concat chunks' = concat chunks \<longrightarrow>
            handle_sensor loads chunks' s = handle_sensor loads chunks s"
    using eq [of chunks'] eq [OF assms] by auto
  have 3: "(\<forall>l\<in>set (complete_lines [] (concat chunks)).
              \<forall>e. loads l = Inl e \<longrightarrow> e = JSONDecodeError) \<longrightarrow>
            fst (handle_sensor loads chunks s) = Disconnected \<and>
            sensor_data (snd (snd (handle_sensor loads chunks s))) =
              sensor_data s @ decoded_records loads (complete_lines [] (concat chunks))"
  proof
    assume h: "\<forall>l\<in>set (complete_lines [] (concat chunks)).
              \<forall>e. loads l = Inl e \<longrightarrow> e = JSONDecodeError"
    obtain r evs' s' where el:
      "each_line loads (complete_lines [] (concat chunks)) [] s = (r, evs', s')"
      by (cases "each_line loads (complete_lines [] (concat chunks)) [] s")
    from each_line_records [OF h, of "[]" s] el
    have "r = None" "sensor_data s' = sensor_data s @
        decoded_records loads (complete_lines [] (concat chunks))"
      by simp_all
    then show "fst (handle_sensor loads chunks s) = Disconnected \<and>
            sensor_data (snd (snd (handle_sensor loads chunks s))) =
              sensor_data s @ decoded_records loads (complete_lines [] (concat chunks))"
      using el unfolding eq [OF assms] by (simp add: framed_line_reader_def)
  qed
  from eq [OF assms] 2 3 show ?thesis by blast
qed

text \<open>
  The stream \<^verbatim>\<open>7\n{}\nnu\<close> cut in two ways: both store 7 and the empty dict;
  the unterminated rest is not decoded.
\<close>

theorem framing_chunk_independent_witness:
  "[] \<notin> set [''7'' @ [newline] @ ''{'', ''}'' @ [newline] @ ''nu''] \<and>
   [] \<notin> set [''7'', [newline], ''{}'', [newline] @ ''n'', ''u''] \<and>
   concat [''7'', [newline], ''{}'', [newline] @ ''n'', ''u'']
     = concat [''7'' @ [newline] @ ''{'', ''}'' @ [newline] @ ''nu''] \<and>
   handle_sensor sample_loads [''7'', [newline], ''{}'', [newline] @ ''n'', ''u''] default_drone
     = handle_sensor sample_loads [''7'' @ [newline] @ ''{'', ''}'' @ [newline] @ ''nu'']
         default_drone \<and>
   sensor_data (snd (snd (handle_sensor sample_loads
       [''7'' @ [newline] @ ''{'', ''}'' @ [newline] @ ''nu''] default_drone)))
     = [JNum 7, JObj []]"
proof -
  have a: "[] \<notin> set [''7'' @ [newline] @ ''{'', ''}'' @ [newline] @ ''nu'']"
    and b: "[] \<notin> set [''7'', [newline], ''{}'', [newline] @ ''n'', ''u'']"
    and c: "concat [''7'', [newline], ''{}'', [newline] @ ''n'', ''u'']
     = concat [''7'' @ [newline] @ ''{'', ''}'' @ [newline] @ ''nu'']"
    by simp_all
  have ls: "complete_lines [] (concat [''7'' @ [newline] @ ''{'', ''}'' @ [newline] @ ''nu''])
      = [''7'', ''{}'']"
    by (simp add: newline_def)
  have d: "\<forall>l\<in>set (complete_lines [] (concat [''7'' @ [newline] @ ''{'', ''}'' @ [newline] @ ''nu''])).
      \<forall>e. sample_loads l = Inl e \<longrightarrow> e = JSONDecodeError"
    unfolding ls by (simp add: sample_loads_def)
  have e: "decoded_records sample_loads [''7'', ''{}''] = [JNum 7, JObj []]"
    by (simp add: sample_loads_def)
  have f: "sensor_data default_drone = []" by (simp add: default_drone_def)
  note t = framing_chunk_independent [OF a, of sample_loads default_drone
      "[''7'', [newline], ''{}'', [newline] @ ''n'', ''u'']"]
  have g: "handle_sensor sample_loads [''7'', [newline], ''{}'', [newline] @ ''n'', ''u''] default_drone
     = handle_sensor sample_loads [''7'' @ [newline] @ ''{'', ''}'' @ [newline] @ ''nu'']
         default_drone"
    using t b c by blast
  have h: "sensor_data (snd (snd (handle_sensor sample_loads
       [''7'' @ [newline] @ ''{'', ''}'' @ [newline] @ ''nu''] default_drone)))
     = [JNum 7, JObj []]"
  proof -
    have "sensor_data (snd (snd (handle_sensor sample_loads
       [''7'' @ [newline] @ ''{'', ''}'' @ [newline] @ ''nu''] default_drone)))
      = sensor_data default_drone @ decoded_records sample_loads (complete_lines []
          (concat [''7'' @ [newline] @ ''{'', ''}'' @ [newline] @ ''nu'']))"
      using t d by blast
    then show ?thesis by (simp only: ls e f append_Nil)
  qed
  from a b c g h show ?thesis by blast
qed

subsection \<open>Malformed records and the lock\<close>

text \<open>
  A line on which \<^verbatim>\<open>json.loads\<close> raises \<^verbatim>\<open>JSONDecodeError\<close> is dropped with a
  warning and the state is untouched; any other exception ends the handler.
\<close>

lemma invalid_json_discarded:
  "loads line = Inl JSONDecodeError \<Longrightarrow>
   handle_line loads line s = (Continues, [LogWarning ''Invalid JSON from sensor''], s)"
  by (simp add: handle_line_def)

lemma undecodable_bytes_end_handler:
  "loads line = Inl UnicodeDecodeError \<Longrightarrow> handle_line loads line s = (Dies UnicodeDecodeError, [], s)"
  by (simp add: handle_line_def)

text \<open>
  C7. The line \<^verbatim>\<open>{}\<close> is valid JSON and not a reading. The handler does not discard
  it: it stores the empty dict in \<^verbatim>\<open>sensor_data\<close> and in the window and logs no
  warning. The next iteration of the processing loop raises \<^verbatim>\<open>KeyError\<close> on the
  window, which ends the processing thread.
\<close>

theorem wrong_shape_record_kept:
  "sample_loads ''{}'' = Inr (JObj []) \<and>
   handle_line sample_loads ''{}'' default_drone =
     (Continues, [Acquire, Release, LogInfo ''Received''],
      default_drone\<lparr>sensor_data := [JObj []], readings := [JObj []]\<rparr>) \<and>
   process_iteration ''now'' (default_drone\<lparr>sensor_data := [JObj []], readings := [JObj []]\<rparr>) =
     (Dies KeyError, [Acquire, Release],
      default_drone\<lparr>sensor_data := [], readings := [JObj []]\<rparr>)"
  by (simp add: sample_loads_def handle_line_def ingest_def deque_append_def default_drone_def
      process_iteration_def process_reading_def current_average_def)

text \<open>
  Every forwarding tick that transmits does so under the lock; the other loops sleep
  outside it.
\<close>

lemma forward_blocks_under_lock:
  "\<not> returning s \<Longrightarrow> forward_queue s \<noteq> [] \<Longrightarrow> blocks_under_lock False (fst (forward_tick ok s))"
  by (simp add: forward_tick_def Let_def)

lemma other_loops_block_outside_lock:
  "\<not> blocks_under_lock False (fst (battery_tick s)) \<and>
   \<not> blocks_under_lock False (fst (snd (process_reading now reading s))) \<and>
   \<not> blocks_under_lock False (fst (snd (handle_line loads line s)))"
  by (auto simp: battery_tick_def process_reading_def handle_line_def Let_def
      split: sum.splits prod.splits)

text \<open>
  C8. On an active drone with a queued summary, the forwarding tick makes its connection
  and send to the central server between acquiring and releasing the lock.
\<close>

theorem forward_transmits_under_lock:
  "\<not> returning busy_drone \<and> forward_queue busy_drone = [queued_summary] \<and>
   fst (forward_tick True busy_drone) =
     [Sleep, Acquire, Transmit [queued_summary] True, LogInfo ''Forwarded'', Release] \<and>
   blocks_under_lock False (fst (forward_tick True busy_drone))"
  by (simp add: busy_drone_def default_drone_def forward_tick_def)

end
